theory Spec2Isabelle
  imports Main "HOL-Library.Word"
begin

section \<open>The packet registry (protocol.go, lines 100-203)\<close>

type_synonym byte = "8 word"

text \<open>\<^verbatim>\<open>type Packet byte\<close>: any of the 256 byte values is a Packet; twelve are declared.\<close>

type_synonym Packet = byte

definition UidLength :: "8 word" where "UidLength = 16"

definition ClientType :: Packet where "ClientType = 0x00"
definition UidAssignment :: Packet where "UidAssignment = 0x01"
definition UidRequest :: Packet where "UidRequest = 0x02"
definition PeerNotFound :: Packet where "PeerNotFound = 0x03"
definition UploaderReady :: Packet where "UploaderReady = 0x04"
definition FileName :: Packet where "FileName = 0x05"
definition FileSize :: Packet where "FileSize = 0x06"
definition FileHash :: Packet where "FileHash = 0x07"
definition Verification :: Packet where "Verification = 0x08"
definition ProtocolError :: Packet where "ProtocolError = 0x09"
definition InternalError :: Packet where "InternalError = 0x0A"
definition Halt :: Packet where "Halt = 0x0B"

definition bodilessPackets :: "Packet list" where
  "bodilessPackets = [PeerNotFound, UploaderReady]"

text \<open>\<^verbatim>\<open>fixedLengthPackets map[Packet]uint8\<close>: a lookup gives the length and whether the
  key is present.\<close>

definition fixedLengthPackets :: "Packet \<rightharpoonup> 8 word" where
  "fixedLengthPackets = map_of
     [(ClientType, 1), (UidAssignment, UidLength), (UidRequest, UidLength),
      (FileSize, 8), (FileHash, 32), (Verification, 1)]"

text \<open>\<^verbatim>\<open>isBodiless\<close> (lines 325-333): a linear search of \<open>bodilessPackets\<close>.\<close>

fun range_bodiless :: "Packet list \<Rightarrow> Packet \<Rightarrow> bool" where
  "range_bodiless [] p = False"
| "range_bodiless (v # vs) p = (if v = p then True else range_bodiless vs p)"

definition isBodiless :: "Packet \<Rightarrow> bool" where
  "isBodiless p = range_bodiless bodilessPackets p"

section \<open>Messages and their encoding (lines 205-239)\<close>

text \<open>A \<^verbatim>\<open>[]byte\<close> body is a list of bytes; the nil slice and the empty slice are both
  the empty list, they hold the same bytes.\<close>

record Message =
  Packet :: Packet
  Body :: "byte list"

text \<open>The only constructor of the source: one byte of body, no check, no error result.\<close>

definition NewMesssageWithByte :: "Packet \<Rightarrow> byte \<Rightarrow> Message" where
  "NewMesssageWithByte packet body = \<lparr>Packet = packet, Body = [body]\<rparr>"

text \<open>The errors of the model: the one \<^verbatim>\<open>MarshalBinary\<close> builds with \<^verbatim>\<open>fmt.Errorf\<close>
  (it carries the body length it prints), and a failure of the transport (end of stream,
  closed or broken connection) reported by \<^verbatim>\<open>Read\<close> or \<^verbatim>\<open>Write\<close>.\<close>

datatype error = BodyTooLong nat | TransportError

text \<open>\<^verbatim>\<open>MarshalBinary\<close> returns the pair \<^verbatim>\<open>(data, err)\<close>; \<^verbatim>\<open>byte(len(m.Body))\<close> keeps the
  low eight bits of the length.\<close>

definition MarshalBinary :: "Message \<Rightarrow> byte list \<times> error option" where
  "MarshalBinary m =
     (let buff = [Packet m] in
      if \<not> isBodiless (Packet m) then
        (case fixedLengthPackets (Packet m) of
           None \<Rightarrow>
             (let bodyLen = length (Body m) in
              if bodyLen > 0xFF then ([], Some (BodyTooLong bodyLen))
              else (buff @ [of_nat (length (Body m))] @ Body m, None))
         | Some _ \<Rightarrow> (buff @ Body m, None))
      else (buff, None))"

section \<open>The connection\<close>

text \<open>\<^verbatim>\<open>net.Conn\<close> is an interface; the model is a stream socket. \<open>incoming\<close> holds the
  segments still to arrive, in order: one \<^verbatim>\<open>Read\<close> returns bytes of the first segment only,
  as many as fit the buffer, so a buffer larger than what has arrived is filled in part
  (\<^verbatim>\<open>n < len(b)\<close>, \<^verbatim>\<open>err == nil\<close>). When no segment is left the stream has ended or
  failed and \<^verbatim>\<open>Read\<close> returns an error. A \<^verbatim>\<open>Read\<close> into a buffer of length 0 returns
  \<^verbatim>\<open>0, nil\<close> at once. \<open>wr_left\<close> is the number of \<^verbatim>\<open>Write\<close> calls the transport still
  accepts (\<open>None\<close>: all of them); \<open>outgoing\<close> is what the accepted calls have written.\<close>

record conn =
  RemoteAddr :: string
  incoming :: "byte list list"
  wr_left :: "nat option"
  outgoing :: "byte list"

definition conn_Read :: "conn \<Rightarrow> nat \<Rightarrow> error + (byte list \<times> conn)" where
  "conn_Read c n =
     (if n = 0 then Inr ([], c)
      else (case incoming c of
              [] \<Rightarrow> Inl TransportError
            | seg # segs \<Rightarrow>
                Inr (take n seg,
                     c\<lparr>incoming := (if length seg \<le> n then segs else drop n seg # segs)\<rparr>)))"

definition conn_Write :: "conn \<Rightarrow> byte list \<Rightarrow> error + conn" where
  "conn_Write c data =
     (case wr_left c of
        None \<Rightarrow> Inr (c\<lparr>outgoing := outgoing c @ data\<rparr>)
      | Some 0 \<Rightarrow> Inl TransportError
      | Some (Suc k) \<Rightarrow> Inr (c\<lparr>wr_left := Some k, outgoing := outgoing c @ data\<rparr>))"

text \<open>\<^verbatim>\<open>make([]byte, n)\<close> followed by a \<^verbatim>\<open>Read\<close> that stored \<open>d\<close>: the bytes read, then
  the zero bytes the read left untouched.\<close>

definition buffer_after :: "nat \<Rightarrow> byte list \<Rightarrow> byte list" where
  "buffer_after n d = d @ replicate (n - length d) 0"

text \<open>What \<^verbatim>\<open>handleReadError\<close> and \<^verbatim>\<open>handleWriteError\<close> print on the standard error:
  the remote address of the connection and the error.\<close>

datatype log_line = ReadErrorLine string error | WriteErrorLine string error

definition handleReadError :: "conn \<Rightarrow> error \<Rightarrow> log_line" where
  "handleReadError c err = ReadErrorLine (RemoteAddr c) err"

definition handleWriteError :: "conn \<Rightarrow> error \<Rightarrow> log_line" where
  "handleWriteError c err = WriteErrorLine (RemoteAddr c) err"

section \<open>Decoding one frame (the body of the reader loop, lines 252-291)\<close>

text \<open>Lines 268-279: the body length, from the map or from one more byte of the stream.\<close>

definition read_len :: "conn \<Rightarrow> Packet \<Rightarrow> conn \<times> (log_line + 8 word)" where
  "read_len c packet =
     (case fixedLengthPackets packet of
        Some len \<Rightarrow> (c, Inr len)
      | None \<Rightarrow>
          (case conn_Read c 1 of
             Inl err \<Rightarrow> (c, Inl (handleReadError c err))
           | Inr (d, c') \<Rightarrow> (c', Inr (hd (buffer_after 1 d)))))"

text \<open>One iteration: \<open>Inr m\<close> is the message sent on \<^verbatim>\<open>in\<close>, \<open>Inl l\<close> the line printed
  before the loop is left. The number of bytes a \<^verbatim>\<open>Read\<close> returns is discarded, as in the
  source (\<^verbatim>\<open>_, err := conn.Read(...)\<close>).\<close>

definition read_frame :: "conn \<Rightarrow> conn \<times> (log_line + Message)" where
  "read_frame c =
     (case conn_Read c 1 of
        Inl err \<Rightarrow> (c, Inl (handleReadError c err))
      | Inr (d, c1) \<Rightarrow>
          (let packet = hd (buffer_after 1 d) in
           if isBodiless packet then (c1, Inr \<lparr>Packet = packet, Body = []\<rparr>)
           else
             (case read_len c1 packet of
                (c2, Inl l) \<Rightarrow> (c2, Inl l)
              | (c2, Inr len) \<Rightarrow>
                  (case conn_Read c2 (unat len) of
                     Inl err \<Rightarrow> (c2, Inl (handleReadError c2 err))
                   | Inr (body, c3) \<Rightarrow>
                       (c3, Inr \<lparr>Packet = packet,
                                 Body = buffer_after (unat len) body\<rparr>)))))"

section \<open>The framing invariant of a message\<close>

text \<open>The invariant a message has under the policy of its kind: no body for a bodiless
  kind, the registered length for a kind of \<open>fixedLengthPackets\<close>, at most 255 bytes for
  any other kind.\<close>

definition framing_ok :: "Message \<Rightarrow> bool" where
  "framing_ok m =
     (if isBodiless (Packet m) then Body m = []
      else (case fixedLengthPackets (Packet m) of
              Some n \<Rightarrow> length (Body m) = unat n
            | None \<Rightarrow> length (Body m) \<le> 255))"

section \<open>The pump (\<^verbatim>\<open>MessageChannel\<close>, lines 243-315)\<close>

text \<open>Both channels are unbuffered, so a channel is open or closed and holds nothing.
  Closing a closed channel and sending on a closed channel are run-time panics of Go, which
  end the process; receiving from a closed channel yields the zero \<^verbatim>\<open>Message\<close> at once.\<close>

datatype chan = ChOpen | ChClosed

datatype panic = CloseOfClosedChannel | SendOnClosedChannel

fun chan_close :: "chan \<Rightarrow> panic + chan" where
  "chan_close ChOpen = Inr ChClosed"
| "chan_close ChClosed = Inl CloseOfClosedChannel"

definition zeroMessage :: Message where
  "zeroMessage = \<lparr>Packet = 0, Body = []\<rparr>"

text \<open>\<^verbatim>\<open><- out\<close>: \<open>pending\<close> are the messages the application is sending on \<^verbatim>\<open>out\<close>, in
  order. \<open>None\<close>: the receive blocks.\<close>

fun chan_recv :: "chan \<Rightarrow> Message list \<Rightarrow> (Message \<times> Message list) option" where
  "chan_recv ChClosed pending = Some (zeroMessage, pending)"
| "chan_recv ChOpen [] = None"
| "chan_recv ChOpen (m # pending) = Some (m, pending)"

text \<open>Lines 300-310, after the receive: the line printed if the loop is left.\<close>

definition writer_iter :: "conn \<Rightarrow> Message \<Rightarrow> conn \<times> log_line option" where
  "writer_iter c m =
     (case MarshalBinary m of
        (data, Some err) \<Rightarrow> (c, Some (handleWriteError c err))
      | (data, None) \<Rightarrow>
          (case conn_Write c data of
             Inl err \<Rightarrow> (c, Some (handleWriteError c err))
           | Inr c' \<Rightarrow> (c', None)))"

text \<open>Where each goroutine stands. A goroutine that leaves its loop runs its deferred
  calls last registered first: \<^verbatim>\<open>close(out)\<close>, then \<^verbatim>\<open>close(in)\<close>.\<close>

datatype reader_pc = RLoop | RSend Message | RCloseOut | RCloseIn | RDone

datatype writer_pc = WLoop | WCloseOut | WCloseIn | WDone

record pump =
  pconn :: conn
  ch_in :: chan
  ch_out :: chan
  inbox :: "Message list"
  outbox :: "Message list"
  reader :: reader_pc
  writer :: writer_pc
  stderr :: "log_line list"
  panicked :: "panic option"

text \<open>\<open>inbox\<close>: the messages the application has received from \<^verbatim>\<open>in\<close>; \<open>outbox\<close>: the
  messages it is sending on \<^verbatim>\<open>out\<close> that the writer has not received yet.\<close>

definition MessageChannel :: "conn \<Rightarrow> Message list \<Rightarrow> pump" where
  "MessageChannel c app_out =
     \<lparr>pconn = c, ch_in = ChOpen, ch_out = ChOpen, inbox = [], outbox = app_out,
      reader = RLoop, writer = WLoop, stderr = [], panicked = None\<rparr>"

definition reader_step :: "pump \<Rightarrow> pump" where
  "reader_step p =
     (case reader p of
        RLoop \<Rightarrow>
          (case read_frame (pconn p) of
             (c', Inl l) \<Rightarrow> p\<lparr>pconn := c', stderr := stderr p @ [l], reader := RCloseOut\<rparr>
           | (c', Inr m) \<Rightarrow> p\<lparr>pconn := c', reader := RSend m\<rparr>)
      | RSend m \<Rightarrow>
          (case ch_in p of
             ChClosed \<Rightarrow> p\<lparr>panicked := Some SendOnClosedChannel\<rparr>
           | ChOpen \<Rightarrow> p\<lparr>inbox := inbox p @ [m], reader := RLoop\<rparr>)
      | RCloseOut \<Rightarrow>
          (case chan_close (ch_out p) of
             Inl e \<Rightarrow> p\<lparr>panicked := Some e\<rparr>
           | Inr ch \<Rightarrow> p\<lparr>ch_out := ch, reader := RCloseIn\<rparr>)
      | RCloseIn \<Rightarrow>
          (case chan_close (ch_in p) of
             Inl e \<Rightarrow> p\<lparr>panicked := Some e\<rparr>
           | Inr ch \<Rightarrow> p\<lparr>ch_in := ch, reader := RDone\<rparr>)
      | RDone \<Rightarrow> p)"

definition writer_step :: "pump \<Rightarrow> pump" where
  "writer_step p =
     (case writer p of
        WLoop \<Rightarrow>
          (case chan_recv (ch_out p) (outbox p) of
             None \<Rightarrow> p
           | Some (m, rest) \<Rightarrow>
               (case writer_iter (pconn p) m of
                  (c', None) \<Rightarrow> p\<lparr>pconn := c', outbox := rest\<rparr>
                | (c', Some l) \<Rightarrow>
                    p\<lparr>pconn := c', outbox := rest, stderr := stderr p @ [l],
                      writer := WCloseOut\<rparr>))
      | WCloseOut \<Rightarrow>
          (case chan_close (ch_out p) of
             Inl e \<Rightarrow> p\<lparr>panicked := Some e\<rparr>
           | Inr ch \<Rightarrow> p\<lparr>ch_out := ch, writer := WCloseIn\<rparr>)
      | WCloseIn \<Rightarrow>
          (case chan_close (ch_in p) of
             Inl e \<Rightarrow> p\<lparr>panicked := Some e\<rparr>
           | Inr ch \<Rightarrow> p\<lparr>ch_in := ch, writer := WDone\<rparr>)
      | WDone \<Rightarrow> p)"

text \<open>The scheduler picks the goroutine that moves next. One move of the reader is the
  reads of one frame, a send on \<^verbatim>\<open>in\<close> (the application is taken to be receiving) or one
  deferred close; one move of the writer is a receive with the encoding and the write that
  follow it, or one deferred close. The reader only reads from the connection and the
  writer only writes to it, so nothing is lost by moving in these units. No goroutine
  recovers from a panic: the process ends there, and the model stops at the first panic.\<close>

datatype actor = Reader | Writer

definition pump_step :: "actor \<Rightarrow> pump \<Rightarrow> pump" where
  "pump_step a p =
     (if panicked p \<noteq> None then p
      else (case a of Reader \<Rightarrow> reader_step p | Writer \<Rightarrow> writer_step p))"

fun run :: "actor list \<Rightarrow> pump \<Rightarrow> pump" where
  "run [] p = p"
| "run (a # sched) p = run sched (pump_step a p)"

section \<open>Facts about the registry and the connection\<close>

lemmas packet_defs = ClientType_def UidAssignment_def UidRequest_def PeerNotFound_def
  UploaderReady_def FileName_def FileSize_def FileHash_def Verification_def
  ProtocolError_def InternalError_def Halt_def UidLength_def

lemma isBodiless_iff: "isBodiless p \<longleftrightarrow> p = 3 \<or> p = 4"
  by (auto simp: isBodiless_def bodilessPackets_def packet_defs)

lemma fixedLengthPackets_eq:
  "fixedLengthPackets p =
     (if p = 0 then Some 1 else if p = 1 then Some 16 else if p = 2 then Some 16
      else if p = 6 then Some 8 else if p = 7 then Some 32 else if p = 8 then Some 1
      else None)"
  by (simp add: fixedLengthPackets_def packet_defs)

lemma fixed_length_pos: "fixedLengthPackets p = Some n \<Longrightarrow> 0 < unat n"
  by (auto simp: fixedLengthPackets_eq split: if_splits)

lemma buffer_after_full: "length d = n \<Longrightarrow> buffer_after n d = d"
  by (simp add: buffer_after_def)

lemma conn_Read_length: "conn_Read c n = Inr (d, c') \<Longrightarrow> length d \<le> n"
  by (auto simp: conn_Read_def split: if_splits list.splits)

lemma length_buffer_after: "length d \<le> n \<Longrightarrow> length (buffer_after n d) = n"
  by (simp add: buffer_after_def)

lemma conn_Read_zero: "conn_Read c 0 = Inr ([], c)"
  by (simp add: conn_Read_def)

lemma conn_Read_seg:
  assumes "incoming c = (xs @ ys) # segs" and "xs \<noteq> []"
  shows "conn_Read c (length xs) =
           Inr (xs, c\<lparr>incoming := (if ys = [] then segs else ys # segs)\<rparr>)"
  using assms by (simp add: conn_Read_def)

lemma conn_Read_one:
  assumes "incoming c = (x # ys) # segs"
  shows "conn_Read c (Suc 0) =
           Inr ([x], c\<lparr>incoming := (if ys = [] then segs else ys # segs)\<rparr>)"
  using conn_Read_seg [of c "[x]" ys segs] assms by simp

lemma read_frame_bodiless:
  assumes "isBodiless k" and "incoming c = (k # rest) # segs"
  shows "read_frame c =
           (c\<lparr>incoming := (if rest = [] then segs else rest # segs)\<rparr>,
            Inr \<lparr>Packet = k, Body = []\<rparr>)"
  using assms by (simp add: read_frame_def conn_Read_one buffer_after_def)

lemma conn_Read_body:
  assumes "incoming c = (if body @ rest = [] then segs else (body @ rest) # segs)"
  shows "conn_Read c (length body) =
           Inr (body, c\<lparr>incoming := (if rest = [] then segs else rest # segs)\<rparr>)"
proof (cases "body = []")
  case True
  with assms have "c\<lparr>incoming := (if rest = [] then segs else rest # segs)\<rparr> = c"
    by simp
  with True show ?thesis by (simp add: conn_Read_zero)
next
  case False
  with assms have "incoming c = (body @ rest) # segs" by simp
  from conn_Read_seg [OF this False] show ?thesis .
qed

lemma read_frame_variable:
  assumes "\<not> isBodiless k" and "fixedLengthPackets k = None"
    and "length body = unat L" and "incoming c = (k # L # body @ rest) # segs"
  shows "read_frame c =
           (c\<lparr>incoming := (if rest = [] then segs else rest # segs)\<rparr>,
            Inr \<lparr>Packet = k, Body = body\<rparr>)"
proof -
  let ?c1 = "c\<lparr>incoming := (L # body @ rest) # segs\<rparr>"
  let ?c2 = "c\<lparr>incoming := (if body @ rest = [] then segs else (body @ rest) # segs)\<rparr>"
  have r1: "conn_Read c (Suc 0) = Inr ([k], ?c1)"
    using conn_Read_one [OF assms(4)] by simp
  have r2: "conn_Read ?c1 (Suc 0) = Inr ([L], ?c2)"
    using conn_Read_one [of ?c1 L "body @ rest" segs] by simp
  have r3: "conn_Read ?c2 (unat L) =
              Inr (body, c\<lparr>incoming := (if rest = [] then segs else rest # segs)\<rparr>)"
    using conn_Read_body [of ?c2 body rest segs] assms(3) by simp
  have len: "read_len ?c1 k = (?c2, Inr L)"
    using assms(2) r2 by (simp add: read_len_def buffer_after_def)
  show ?thesis
    using assms(1,3) r1 len r3
    by (simp add: read_frame_def buffer_after_def)
qed

lemma read_frame_fixed:
  assumes "\<not> isBodiless k" and "fixedLengthPackets k = Some n"
    and "length body = unat n" and "incoming c = (k # body @ rest) # segs"
  shows "read_frame c =
           (c\<lparr>incoming := (if rest = [] then segs else rest # segs)\<rparr>,
            Inr \<lparr>Packet = k, Body = body\<rparr>)"
proof -
  from fixed_length_pos [OF assms(2)] assms(3) have ne: "body \<noteq> []" by auto
  let ?c1 = "c\<lparr>incoming := (body @ rest) # segs\<rparr>"
  have r1: "conn_Read c (Suc 0) = Inr ([k], ?c1)"
    using conn_Read_one [OF assms(4)] ne by simp
  have r3: "conn_Read ?c1 (unat n) =
              Inr (body, c\<lparr>incoming := (if rest = [] then segs else rest # segs)\<rparr>)"
    using conn_Read_seg [of ?c1 body rest segs] ne assms(3) by simp
  have len: "read_len ?c1 k = (?c1, Inr n)"
    using assms(2) by (simp add: read_len_def)
  show ?thesis
    using assms(1,3) r1 len r3
    by (simp add: read_frame_def buffer_after_def)
qed

lemma undeclared_is_variable:
  "0x0B < k \<Longrightarrow> \<not> isBodiless k \<and> fixedLengthPackets k = None"
  for k :: Packet
  by (auto simp: isBodiless_iff fixedLengthPackets_eq)

lemma unat_byte_le: "unat (w :: 8 word) \<le> 255"
  using unsigned_less [of w, where ?'a = nat] by simp

lemma length_body_buffer:
  "conn_Read c n = Inr (d, c') \<Longrightarrow> length (buffer_after n d) = n"
  by (rule length_buffer_after [OF conn_Read_length])

lemma read_frame_framing_ok:
  assumes "read_frame c = (c', Inr m)"
  shows "framing_ok m"
  using assms
  by (auto simp: read_frame_def read_len_def framing_ok_def Let_def
        length_body_buffer unat_byte_le
        split: sum.splits prod.splits if_splits option.splits)

lemma read_frame_error_line:
  assumes "read_frame c = (c', Inl l)"
  shows "l = ReadErrorLine (RemoteAddr c) TransportError"
  using assms
  by (auto simp: read_frame_def read_len_def conn_Read_def Let_def handleReadError_def
        split: sum.splits prod.splits if_splits option.splits list.splits)

section \<open>The codec\<close>

text \<open>Claim C1 (round trip). A message that satisfies the framing invariant of its kind
  is encoded by \<^verbatim>\<open>MarshalBinary\<close> without error, and when the encoded bytes are at the
  head of the stream (whatever follows them), one iteration of the reader decodes exactly
  that message, kind and body, and leaves what follows in the stream.\<close>

theorem roundtrip:
  assumes "framing_ok m" and "incoming c = (fst (MarshalBinary m) @ rest) # segs"
  shows "snd (MarshalBinary m) = None \<and>
         read_frame c =
           (c\<lparr>incoming := (if rest = [] then segs else rest # segs)\<rparr>, Inr m)"
proof (cases "isBodiless (Packet m)")
  case True
  with assms(1) have b: "Body m = []" by (simp add: framing_ok_def)
  from True have mb: "MarshalBinary m = ([Packet m], None)"
    by (simp add: MarshalBinary_def)
  from assms(2) mb have "incoming c = (Packet m # rest) # segs" by simp
  from read_frame_bodiless [OF True this] b mb show ?thesis by simp
next
  case nb: False
  show ?thesis
  proof (cases "fixedLengthPackets (Packet m)")
    case None
    with assms(1) nb have le: "length (Body m) \<le> 255" by (simp add: framing_ok_def)
    let ?L = "of_nat (length (Body m)) :: 8 word"
    from le have ul: "length (Body m) = unat ?L"
      by (simp add: unat_of_nat)
    from nb None le have mb: "MarshalBinary m = (Packet m # ?L # Body m, None)"
      by (simp add: MarshalBinary_def)
    from assms(2) mb have "incoming c = (Packet m # ?L # Body m @ rest) # segs" by simp
    from read_frame_variable [OF nb None ul this] mb show ?thesis by simp
  next
    case (Some n)
    with assms(1) nb have ul: "length (Body m) = unat n" by (simp add: framing_ok_def)
    from nb Some have mb: "MarshalBinary m = (Packet m # Body m, None)"
      by (simp add: MarshalBinary_def)
    from assms(2) mb have "incoming c = (Packet m # Body m @ rest) # segs" by simp
    from read_frame_fixed [OF nb Some ul this] mb show ?thesis by simp
  qed
qed

theorem roundtrip_witness:
  "framing_ok \<lparr>Packet = FileName, Body = [0x61, 0x2E, 0x74, 0x78, 0x74]\<rparr> \<and>
   MarshalBinary \<lparr>Packet = FileName, Body = [0x61, 0x2E, 0x74, 0x78, 0x74]\<rparr> =
     ([0x05, 0x05, 0x61, 0x2E, 0x74, 0x78, 0x74], None) \<and>
   read_frame \<lparr>RemoteAddr = ''peer'',
               incoming = [[0x05, 0x05, 0x61, 0x2E, 0x74, 0x78, 0x74, 0x04], [0x03]],
               wr_left = None, outgoing = []\<rparr> =
     (\<lparr>RemoteAddr = ''peer'', incoming = [[0x04], [0x03]], wr_left = None, outgoing = []\<rparr>,
      Inr \<lparr>Packet = FileName, Body = [0x61, 0x2E, 0x74, 0x78, 0x74]\<rparr>)"
proof -
  let ?m = "\<lparr>Packet = FileName, Body = [0x61, 0x2E, 0x74, 0x78, 0x74]\<rparr>"
  let ?c = "\<lparr>RemoteAddr = ''peer'',
             incoming = [[0x05, 0x05, 0x61, 0x2E, 0x74, 0x78, 0x74, 0x04], [0x03]],
             wr_left = None, outgoing = []\<rparr>"
  have ok: "framing_ok ?m" by code_simp
  have mb: "MarshalBinary ?m = ([0x05, 0x05, 0x61, 0x2E, 0x74, 0x78, 0x74], None)"
    by code_simp
  have inc: "incoming ?c = (fst (MarshalBinary ?m) @ [0x04]) # [[0x03]]"
    by (simp add: mb)
  from roundtrip [OF ok inc] ok mb show ?thesis by simp
qed

text \<open>Claim C5 (encode failure). \<^verbatim>\<open>MarshalBinary\<close> returns an error exactly when the kind
  is neither bodiless nor of fixed length and the body is longer than 255 bytes; the error
  is then the body-length error and the data returned is empty, and in every other case
  the data is not empty. A \<^verbatim>\<open>Halt\<close> message with a body of 255 bytes encodes to
  \<open>0x0B\<close>, \<open>0xFF\<close> and the body. The function is pure: it touches no connection.\<close>

theorem marshal_failure:
  "(snd (MarshalBinary m) \<noteq> None) =
     (\<not> isBodiless (Packet m) \<and> fixedLengthPackets (Packet m) = None \<and>
      255 < length (Body m)) \<and>
   (snd (MarshalBinary m) \<noteq> None) =
     (snd (MarshalBinary m) = Some (BodyTooLong (length (Body m)))) \<and>
   (snd (MarshalBinary m) \<noteq> None) = (fst (MarshalBinary m) = []) \<and>
   (length b = 255 \<longrightarrow>
      MarshalBinary \<lparr>Packet = Halt, Body = b\<rparr> = (0x0B # 0xFF # b, None))"
  by (auto simp: MarshalBinary_def Let_def isBodiless_iff fixedLengthPackets_eq Halt_def
        split: option.splits if_splits)

theorem marshal_failure_witness:
  "length (replicate 255 (7 :: byte)) = 255 \<and>
   MarshalBinary \<lparr>Packet = Halt, Body = replicate 255 7\<rparr> =
     (0x0B # 0xFF # replicate 255 7, None) \<and>
   MarshalBinary \<lparr>Packet = Halt, Body = replicate 256 7\<rparr> = ([], Some (BodyTooLong 256))"
proof -
  let ?big = "\<lparr>Packet = Halt, Body = replicate 256 (7 :: byte)\<rparr>"
  have len: "length (replicate 255 (7 :: byte)) = 255" by simp
  have cond: "\<not> isBodiless (Packet ?big) \<and> fixedLengthPackets (Packet ?big) = None \<and>
      255 < length (Body ?big)"
    by (simp add: isBodiless_iff fixedLengthPackets_eq Halt_def)
  from marshal_failure [of ?big "replicate 255 7"] cond len
  have "snd (MarshalBinary ?big) = Some (BodyTooLong 256)" "fst (MarshalBinary ?big) = []"
    "MarshalBinary \<lparr>Packet = Halt, Body = replicate 255 7\<rparr> =
       (0x0B # 0xFF # replicate 255 7, None)"
    by auto
  with len show ?thesis by (simp add: prod_eq_iff)
qed

text \<open>Claim C7 (undeclared kinds). For a kind byte that is neither bodiless nor in the
  fixed-length map, any value above \<open>0x0B\<close> included, the reader takes the next byte
  \<open>L\<close> as the length and the \<open>L\<close> bytes after it as the body, and delivers the
  message with that kind and body.\<close>

theorem variable_decode:
  assumes "\<not> isBodiless k" and "fixedLengthPackets k = None"
    and "length body = unat L" and "incoming c = (k # L # body @ rest) # segs"
  shows "read_frame c =
           (c\<lparr>incoming := (if rest = [] then segs else rest # segs)\<rparr>,
            Inr \<lparr>Packet = k, Body = body\<rparr>)"
  using assms by (rule read_frame_variable)

theorem variable_decode_witness:
  "\<not> isBodiless 0xFF \<and> fixedLengthPackets 0xFF = None \<and>
   read_frame \<lparr>RemoteAddr = ''peer'', incoming = [[0xFF, 2, 7, 9, 1]], wr_left = None,
               outgoing = []\<rparr> =
     (\<lparr>RemoteAddr = ''peer'', incoming = [[1]], wr_left = None, outgoing = []\<rparr>,
      Inr \<lparr>Packet = 0xFF, Body = [7, 9]\<rparr>)"
  using variable_decode [of "0xFF" "[7, 9]" 2
      "\<lparr>RemoteAddr = ''peer'', incoming = [[0xFF, 2, 7, 9, 1]], wr_left = None, outgoing = []\<rparr>"
      "[1]" "[]"]
  by (simp add: isBodiless_iff fixedLengthPackets_eq)

text \<open>Claim C8 (bodiless). A \<^verbatim>\<open>PeerNotFound\<close> message encodes to the single byte
  \<open>0x03\<close> whatever its body field holds, and a stream that begins with \<open>0x03\<close> decodes
  to the \<^verbatim>\<open>PeerNotFound\<close> message without body, only that one byte being consumed.\<close>

theorem peer_not_found:
  assumes "incoming c = (0x03 # rest) # segs"
  shows "MarshalBinary \<lparr>Packet = PeerNotFound, Body = b\<rparr> = ([0x03], None) \<and>
         read_frame c =
           (c\<lparr>incoming := (if rest = [] then segs else rest # segs)\<rparr>,
            Inr \<lparr>Packet = PeerNotFound, Body = []\<rparr>)"
proof -
  have bl: "isBodiless 0x03" by (simp add: isBodiless_iff)
  from read_frame_bodiless [OF bl assms] show ?thesis
    by (simp add: MarshalBinary_def isBodiless_iff PeerNotFound_def)
qed

theorem peer_not_found_witness:
  "MarshalBinary \<lparr>Packet = PeerNotFound, Body = [1, 2]\<rparr> = ([0x03], None) \<and>
   read_frame \<lparr>RemoteAddr = ''peer'', incoming = [[0x03, 0x09]], wr_left = None,
               outgoing = []\<rparr> =
     (\<lparr>RemoteAddr = ''peer'', incoming = [[0x09]], wr_left = None, outgoing = []\<rparr>,
      Inr \<lparr>Packet = PeerNotFound, Body = []\<rparr>)"
  using peer_not_found [of "\<lparr>RemoteAddr = ''peer'', incoming = [[0x03, 0x09]], wr_left = None,
               outgoing = []\<rparr>" "[0x09]" "[]" "[1, 2]"]
  by simp

text \<open>Claim C4 (construction), as amended. Constructing a message from a kind and a body
  byte with \<^verbatim>\<open>NewMesssageWithByte\<close> validates nothing and cannot fail (it has no error
  result). The message it returns satisfies the framing invariant of its kind exactly when
  the kind is not bodiless and is either absent from the fixed-length map or registered
  there with length 1. In particular, for the kind \<^verbatim>\<open>FileHash\<close> the construction succeeds
  with a body that is not 32 bytes long, and the message breaks the invariant.\<close>

theorem constructor_unchecked:
  "framing_ok (NewMesssageWithByte p b) =
     (\<not> isBodiless p \<and> fixedLengthPackets p \<in> {None, Some 1}) \<and>
   length (Body (NewMesssageWithByte FileHash b)) \<noteq> 32 \<and>
   \<not> framing_ok (NewMesssageWithByte FileHash b)"
  by (auto simp: NewMesssageWithByte_def framing_ok_def isBodiless_iff fixedLengthPackets_eq
        FileHash_def)

text \<open>The constructor applied to \<^verbatim>\<open>FileHash\<close>: it succeeds with a body of one byte, not
  of 32, and the message breaks the invariant of its kind.\<close>

theorem constructor_counterexample:
  "NewMesssageWithByte FileHash 0x00 = \<lparr>Packet = FileHash, Body = [0x00]\<rparr> \<and>
   length (Body (NewMesssageWithByte FileHash 0x00)) \<noteq> 32 \<and>
   \<not> framing_ok (NewMesssageWithByte FileHash 0x00)"
  by code_simp

text \<open>Claim C6 (short reads), at a failing input. The frame \<open>05 02 61 62\<close> arrives in two
  segments, \<open>05 02 61\<close> and \<open>62\<close>. The read of the two body bytes returns one byte and no
  error; the decode is not aborted and nothing is reported: a \<^verbatim>\<open>FileName\<close> message whose
  body is \<open>61 00\<close> is delivered, and \<open>62\<close> stays in the stream as the next kind byte.\<close>

theorem short_read_delivers:
  "read_frame \<lparr>RemoteAddr = ''peer'', incoming = [[0x05, 0x02, 0x61], [0x62]],
               wr_left = None, outgoing = []\<rparr> =
     (\<lparr>RemoteAddr = ''peer'', incoming = [[0x62]], wr_left = None, outgoing = []\<rparr>,
      Inr \<lparr>Packet = FileName, Body = [0x61, 0x00]\<rparr>)"
  by code_simp

section \<open>The pump\<close>

lemma reader_step_delivers:
  assumes "list_all framing_ok (inbox p)" and "\<And>m. reader p = RSend m \<Longrightarrow> framing_ok m"
  shows "list_all framing_ok (inbox (reader_step p)) \<and>
         (\<forall>m. reader (reader_step p) = RSend m \<longrightarrow> framing_ok m)"
proof (cases "reader p")
  case RLoop
  obtain c' r where rf: "read_frame (pconn p) = (c', r)" by (cases "read_frame (pconn p)")
  show ?thesis
  proof (cases r)
    case (Inl l)
    with RLoop rf assms(1) show ?thesis by (simp add: reader_step_def)
  next
    case (Inr m)
    with rf read_frame_framing_ok have "framing_ok m" by simp
    with RLoop rf Inr assms(1) show ?thesis by (simp add: reader_step_def)
  qed
next
  case (RSend m)
  with assms show ?thesis by (simp add: reader_step_def split: chan.splits)
next
  case RCloseOut
  with assms(1) show ?thesis by (simp add: reader_step_def split: sum.splits)
next
  case RCloseIn
  with assms(1) show ?thesis by (simp add: reader_step_def split: sum.splits)
next
  case RDone
  with assms(1) show ?thesis by (simp add: reader_step_def)
qed

lemma writer_step_inbox: "inbox (writer_step p) = inbox p \<and> reader (writer_step p) = reader p"
  by (simp add: writer_step_def split: writer_pc.splits option.splits prod.splits sum.splits)

lemma pump_step_delivers:
  assumes "list_all framing_ok (inbox p)" and "\<forall>m. reader p = RSend m \<longrightarrow> framing_ok m"
  shows "list_all framing_ok (inbox (pump_step a p)) \<and>
         (\<forall>m. reader (pump_step a p) = RSend m \<longrightarrow> framing_ok m)"
proof (cases "panicked p \<noteq> None")
  case True
  with assms show ?thesis by (simp add: pump_step_def)
next
  case False
  show ?thesis
  proof (cases a)
    case Reader
    with False reader_step_delivers [of p] assms show ?thesis by (simp add: pump_step_def)
  next
    case Writer
    with False writer_step_inbox [of p] assms show ?thesis by (simp add: pump_step_def)
  qed
qed

lemma run_delivers:
  "list_all framing_ok (inbox p) \<Longrightarrow> \<forall>m. reader p = RSend m \<longrightarrow> framing_ok m \<Longrightarrow>
   list_all framing_ok (inbox (run sched p))"
proof (induction sched arbitrary: p)
  case Nil
  then show ?case by simp
next
  case (Cons a sched)
  from pump_step_delivers [OF Cons.prems, of a] Cons.IH [of "pump_step a p"]
  show ?case by simp
qed

text \<open>The header of a frame when no read comes back empty: the kind byte and the length
  byte are the first two bytes of the stream, however the stream is cut into segments.\<close>

lemma conn_Read_first_byte:
  assumes "[] \<notin> set (incoming c)" and "concat (incoming c) = x # xs"
  shows "\<exists>c1. conn_Read c (Suc 0) = Inr ([x], c1) \<and> [] \<notin> set (incoming c1) \<and>
              concat (incoming c1) = xs"
proof (cases "incoming c")
  case Nil
  with assms(2) show ?thesis by simp
next
  case (Cons seg segs)
  with assms(1) have ne: "seg \<noteq> []" and rest: "[] \<notin> set segs" by auto
  from ne obtain y t where seg: "seg = y # t" by (cases seg) auto
  with Cons assms(2) have y: "y = x" and xs: "xs = t @ concat segs" by simp_all
  from Cons seg y have inc: "incoming c = (x # t) # segs" by simp
  let ?c1 = "c\<lparr>incoming := (if t = [] then segs else t # segs)\<rparr>"
  from conn_Read_one [OF inc] have "conn_Read c (Suc 0) = Inr ([x], ?c1)" .
  moreover from rest have "[] \<notin> set (incoming ?c1)" by simp
  moreover from xs have "concat (incoming ?c1) = xs" by simp
  ultimately show ?thesis by blast
qed

lemma read_frame_length_byte:
  assumes rf: "read_frame c = (c', Inr m)" and ne: "[] \<notin> set (incoming c)"
    and st: "concat (incoming c) = k # L # rest"
    and nb: "\<not> isBodiless k" and var: "fixedLengthPackets k = None"
  shows "Packet m = k \<and> length (Body m) = unat L"
proof -
  from conn_Read_first_byte [OF ne st] obtain c1 where
    r1: "conn_Read c (Suc 0) = Inr ([k], c1)" and ne1: "[] \<notin> set (incoming c1)"
    and st1: "concat (incoming c1) = L # rest" by blast
  from conn_Read_first_byte [OF ne1 st1] obtain c2 where
    r2: "conn_Read c1 (Suc 0) = Inr ([L], c2)" by blast
  from var r2 have len: "read_len c1 k = (c2, Inr L)"
    by (simp add: read_len_def buffer_after_def)
  show ?thesis
  proof (cases "conn_Read c2 (unat L)")
    case (Inl err)
    with rf r1 nb len show ?thesis by (simp add: read_frame_def buffer_after_def)
  next
    case (Inr r)
    obtain d c3 where r: "r = (d, c3)" by (cases r)
    with Inr have r3: "conn_Read c2 (unat L) = Inr (d, c3)" by simp
    with rf r1 nb len have "m = \<lparr>Packet = k, Body = buffer_after (unat L) d\<rparr>"
      by (simp add: read_frame_def buffer_after_def)
    with length_body_buffer [OF r3] show ?thesis by simp
  qed
qed

text \<open>Claim C10 (delivered messages). Under every schedule, every message the reader has
  delivered on \<^verbatim>\<open>in\<close> satisfies the framing invariant of its kind: no body for a bodiless
  kind, the registered length (1, 16, 16, 8, 32, 1) for a fixed-length kind, at most 255
  bytes otherwise. The messages delivered are those a reader iteration returns, and when
  the reads of the header are filled (no segment of the stream is empty) and the stream
  begins with the kind byte \<open>k\<close> and the byte \<open>L\<close>, \<open>k\<close> neither bodiless nor of fixed
  length, the message an iteration returns has kind \<open>k\<close> and a body of exactly \<open>L\<close>
  bytes, the length byte read, hence at most 255.\<close>

theorem delivered_framing:
  "list_all framing_ok (inbox (run sched (MessageChannel c app_out))) \<and>
   map fixedLengthPackets
     [ClientType, UidAssignment, UidRequest, FileSize, FileHash, Verification] =
     [Some 1, Some 16, Some 16, Some 8, Some 32, Some 1] \<and>
   (read_frame c1 = (c2, Inr m) \<and> [] \<notin> set (incoming c1) \<and>
    concat (incoming c1) = k # L # rest \<and> \<not> isBodiless k \<and> fixedLengthPackets k = None
      \<longrightarrow> Packet m = k \<and> length (Body m) = unat L \<and> length (Body m) \<le> 255)"
proof -
  have "list_all framing_ok (inbox (run sched (MessageChannel c app_out)))"
    by (rule run_delivers) (simp_all add: MessageChannel_def)
  moreover have "map fixedLengthPackets
     [ClientType, UidAssignment, UidRequest, FileSize, FileHash, Verification] =
     [Some 1, Some 16, Some 16, Some 8, Some 32, Some 1]"
    by (simp add: fixedLengthPackets_eq packet_defs)
  moreover have "Packet m = k \<and> length (Body m) = unat L \<and> length (Body m) \<le> 255"
    if "read_frame c1 = (c2, Inr m)" "[] \<notin> set (incoming c1)"
      "concat (incoming c1) = k # L # rest" "\<not> isBodiless k" "fixedLengthPackets k = None"
    using read_frame_length_byte [OF that] unat_byte_le [of L] by simp
  ultimately show ?thesis by blast
qed

theorem delivered_framing_witness:
  "inbox (run [Reader, Reader, Reader, Reader, Reader, Reader]
      (MessageChannel \<lparr>RemoteAddr = ''peer'',
         incoming = [[0x0B, 0x02], [0x21, 0x22, 0x03], [0x08, 0x01]],
         wr_left = None, outgoing = []\<rparr> [])) =
     [\<lparr>Packet = Halt, Body = [0x21, 0x22]\<rparr>, \<lparr>Packet = PeerNotFound, Body = []\<rparr>,
      \<lparr>Packet = Verification, Body = [0x01]\<rparr>] \<and>
   list_all framing_ok
     [\<lparr>Packet = Halt, Body = [0x21, 0x22]\<rparr>, \<lparr>Packet = PeerNotFound, Body = []\<rparr>,
      \<lparr>Packet = Verification, Body = [0x01]\<rparr>] \<and>
   read_frame \<lparr>RemoteAddr = ''peer'',
         incoming = [[0x0B, 0x02], [0x21, 0x22, 0x03], [0x08, 0x01]],
         wr_left = None, outgoing = []\<rparr> =
     (\<lparr>RemoteAddr = ''peer'', incoming = [[0x03], [0x08, 0x01]], wr_left = None,
        outgoing = []\<rparr>,
      Inr \<lparr>Packet = Halt, Body = [0x21, 0x22]\<rparr>) \<and>
   \<not> isBodiless 0x0B \<and> fixedLengthPackets 0x0B = None \<and>
   length (Body \<lparr>Packet = Halt, Body = [0x21, 0x22]\<rparr>) = unat (0x02 :: 8 word)"
proof -
  let ?c = "\<lparr>RemoteAddr = ''peer'',
         incoming = [[0x0B, 0x02], [0x21, 0x22, 0x03], [0x08, 0x01]],
         wr_left = None, outgoing = []\<rparr>"
  let ?c' = "\<lparr>RemoteAddr = ''peer'', incoming = [[0x03], [0x08, 0x01]], wr_left = None,
        outgoing = []\<rparr>"
  let ?m = "\<lparr>Packet = Halt, Body = [0x21, 0x22]\<rparr>"
  let ?s = "[Reader, Reader, Reader, Reader, Reader, Reader]"
  have ev: "inbox (run ?s (MessageChannel ?c [])) =
     [?m, \<lparr>Packet = PeerNotFound, Body = []\<rparr>, \<lparr>Packet = Verification, Body = [0x01]\<rparr>]"
    by code_simp
  have rf: "read_frame ?c = (?c', Inr ?m)" by code_simp
  have ne: "[] \<notin> set (incoming ?c)" by simp
  have st: "concat (incoming ?c) = 0x0B # 0x02 # [0x21, 0x22, 0x03, 0x08, 0x01]" by simp
  have k: "\<not> isBodiless 0x0B" "fixedLengthPackets 0x0B = None"
    by (simp_all add: isBodiless_iff fixedLengthPackets_eq)
  note T = delivered_framing
    [of ?s ?c "[]" ?c ?c' ?m "0x0B" "0x02" "[0x21, 0x22, 0x03, 0x08, 0x01]"]
  have A: "list_all framing_ok
     [?m, \<lparr>Packet = PeerNotFound, Body = []\<rparr>, \<lparr>Packet = Verification, Body = [0x01]\<rparr>]"
    using T [THEN conjunct1] unfolding ev .
  have B: "Packet ?m = 0x0B \<and> length (Body ?m) = unat (0x02 :: 8 word) \<and>
           length (Body ?m) \<le> 255"
    by (rule T [THEN conjunct2, THEN conjunct2, THEN mp]) (intro conjI rf ne st k)
  from ev A rf k B show ?thesis by blast
qed

lemma conn_Read_write_side:
  "conn_Read c n = Inr (d, c') \<Longrightarrow> wr_left c' = wr_left c \<and> outgoing c' = outgoing c"
  by (auto simp: conn_Read_def split: if_splits list.splits)

lemma read_frame_write_side:
  assumes "read_frame c = (c', r)"
  shows "wr_left c' = wr_left c \<and> outgoing c' = outgoing c"
  using assms
  by (auto simp: read_frame_def read_len_def Let_def
        split: sum.splits prod.splits if_splits option.splits
        dest!: conn_Read_write_side)

lemma reader_step_write_side:
  "wr_left (pconn (reader_step p)) = wr_left (pconn p) \<and>
   outgoing (pconn (reader_step p)) = outgoing (pconn p) \<and>
   outbox (reader_step p) = outbox p \<and> writer (reader_step p) = writer p \<and>
   (ch_out (reader_step p) = ChOpen \<longrightarrow> ch_out p = ChOpen)"
proof (cases "reader p")
  case RLoop
  obtain c' r where rf: "read_frame (pconn p) = (c', r)" by (cases "read_frame (pconn p)")
  with RLoop read_frame_write_side [OF rf] show ?thesis
    by (cases r) (simp_all add: reader_step_def)
next
  case (RSend m)
  then show ?thesis by (simp add: reader_step_def split: chan.splits)
next
  case RCloseOut
  then show ?thesis by (cases "ch_out p") (simp_all add: reader_step_def)
next
  case RCloseIn
  then show ?thesis by (cases "ch_in p") (simp_all add: reader_step_def)
next
  case RDone
  then show ?thesis by (simp add: reader_step_def)
qed

lemma writer_iter_ok:
  assumes "snd (MarshalBinary m) = None" and "wr_left c = None"
  shows "writer_iter c m = (c\<lparr>outgoing := outgoing c @ fst (MarshalBinary m)\<rparr>, None)"
  using assms by (cases "MarshalBinary m") (simp add: writer_iter_def conn_Write_def)

lemma zeroMessage_marshals: "snd (MarshalBinary zeroMessage) = None"
  by (simp add: MarshalBinary_def zeroMessage_def isBodiless_iff fixedLengthPackets_eq)

lemma writer_step_order:
  assumes enc: "list_all (\<lambda>m. snd (MarshalBinary m) = None) ms"
    and wl: "wr_left (pconn p) = None" and w: "writer p = WLoop"
    and inv: "ch_out p = ChOpen \<longrightarrow>
       (\<exists>k. k \<le> length ms \<and> outbox p = drop k ms \<and>
            outgoing (pconn p) = out0 @ concat (map (\<lambda>m. fst (MarshalBinary m)) (take k ms)))"
  shows "wr_left (pconn (writer_step p)) = None \<and> writer (writer_step p) = WLoop \<and>
     (ch_out (writer_step p) = ChOpen \<longrightarrow>
       (\<exists>k. k \<le> length ms \<and> outbox (writer_step p) = drop k ms \<and>
            outgoing (pconn (writer_step p)) =
              out0 @ concat (map (\<lambda>m. fst (MarshalBinary m)) (take k ms))))"
proof (cases "ch_out p")
  case ChClosed
  with w wl writer_iter_ok [OF zeroMessage_marshals wl] show ?thesis
    by (simp add: writer_step_def)
next
  case ChOpen
  with inv obtain k where k: "k \<le> length ms" "outbox p = drop k ms"
    "outgoing (pconn p) = out0 @ concat (map (\<lambda>m. fst (MarshalBinary m)) (take k ms))"
    by blast
  show ?thesis
  proof (cases "outbox p")
    case Nil
    with ChOpen w wl inv show ?thesis by (simp add: writer_step_def)
  next
    case (Cons m rest)
    with k(2) have lt: "k < length ms" by (cases "k < length ms") simp_all
    from Cons k(2) lt have m: "m = ms ! k" and rest: "rest = drop (Suc k) ms"
      by (simp_all add: Cons_nth_drop_Suc [symmetric])
    from lt m enc have "snd (MarshalBinary m) = None"
      by (simp add: list_all_length)
    from writer_iter_ok [OF this wl]
    have step: "writer_step p =
        p\<lparr>pconn := (pconn p)\<lparr>outgoing := outgoing (pconn p) @ fst (MarshalBinary m)\<rparr>,
          outbox := rest\<rparr>"
      using ChOpen w Cons by (simp add: writer_step_def)
    have "outgoing (pconn p) @ fst (MarshalBinary m) =
            out0 @ concat (map (\<lambda>m. fst (MarshalBinary m)) (take (Suc k) ms))"
      using k(3) lt m by (simp add: take_Suc_conv_app_nth)
    with step lt rest w wl show ?thesis
      by (intro conjI impI exI [of _ "Suc k"]) simp_all
  qed
qed

lemma pump_step_order:
  assumes enc: "list_all (\<lambda>m. snd (MarshalBinary m) = None) ms"
    and wl: "wr_left (pconn p) = None" and w: "writer p = WLoop"
    and inv: "ch_out p = ChOpen \<longrightarrow>
       (\<exists>k. k \<le> length ms \<and> outbox p = drop k ms \<and>
            outgoing (pconn p) = out0 @ concat (map (\<lambda>m. fst (MarshalBinary m)) (take k ms)))"
  shows "wr_left (pconn (pump_step a p)) = None \<and> writer (pump_step a p) = WLoop \<and>
     (ch_out (pump_step a p) = ChOpen \<longrightarrow>
       (\<exists>k. k \<le> length ms \<and> outbox (pump_step a p) = drop k ms \<and>
            outgoing (pconn (pump_step a p)) =
              out0 @ concat (map (\<lambda>m. fst (MarshalBinary m)) (take k ms))))"
proof (cases "panicked p \<noteq> None")
  case True
  with wl w inv show ?thesis by (simp add: pump_step_def)
next
  case False
  show ?thesis
  proof (cases a)
    case Reader
    with False have "pump_step a p = reader_step p" by (simp add: pump_step_def)
    with reader_step_write_side [of p] wl w inv show ?thesis by simp
  next
    case Writer
    with False have "pump_step a p = writer_step p" by (simp add: pump_step_def)
    with writer_step_order [OF enc wl w inv] show ?thesis by simp
  qed
qed

lemma run_order:
  assumes enc: "list_all (\<lambda>m. snd (MarshalBinary m) = None) ms"
  shows "wr_left (pconn p) = None \<Longrightarrow> writer p = WLoop \<Longrightarrow>
     (ch_out p = ChOpen \<longrightarrow>
       (\<exists>k. k \<le> length ms \<and> outbox p = drop k ms \<and>
            outgoing (pconn p) = out0 @ concat (map (\<lambda>m. fst (MarshalBinary m)) (take k ms)))) \<Longrightarrow>
     ch_out (run sched p) = ChOpen \<Longrightarrow>
       (\<exists>k. k \<le> length ms \<and> outbox (run sched p) = drop k ms \<and>
            outgoing (pconn (run sched p)) =
              out0 @ concat (map (\<lambda>m. fst (MarshalBinary m)) (take k ms)))"
proof (induction sched arbitrary: p)
  case Nil
  then show ?case by simp
next
  case (Cons a sched)
  from pump_step_order [OF enc Cons.prems(1,2,3), of a]
  have "wr_left (pconn (pump_step a p)) = None" "writer (pump_step a p) = WLoop"
    "ch_out (pump_step a p) = ChOpen \<longrightarrow>
       (\<exists>k. k \<le> length ms \<and> outbox (pump_step a p) = drop k ms \<and>
            outgoing (pconn (pump_step a p)) =
              out0 @ concat (map (\<lambda>m. fst (MarshalBinary m)) (take k ms)))"
    by simp_all
  from Cons.IH [OF this] Cons.prems(4) show ?case by simp
qed

text \<open>Claim C9 (ordering). The application sends \<open>ms\<close> on \<^verbatim>\<open>out\<close>, every message of
  \<open>ms\<close> encodes without error and the connection accepts every write. Then under every
  schedule, as long as \<^verbatim>\<open>out\<close> is open, the bytes written to the connection are the
  encodings of the messages received from \<^verbatim>\<open>out\<close> so far, concatenated in the order they
  were sent: nothing is reordered, merged or interleaved.\<close>

theorem writer_order:
  assumes "list_all (\<lambda>m. snd (MarshalBinary m) = None) ms" and "wr_left c = None"
    and "ch_out (run sched (MessageChannel c ms)) = ChOpen"
  shows "outgoing (pconn (run sched (MessageChannel c ms))) =
           outgoing c @ concat (map (\<lambda>m. fst (MarshalBinary m))
             (take (length ms - length (outbox (run sched (MessageChannel c ms)))) ms))"
proof -
  let ?p = "MessageChannel c ms"
  have init: "ch_out ?p = ChOpen \<longrightarrow>
       (\<exists>k. k \<le> length ms \<and> outbox ?p = drop k ms \<and>
            outgoing (pconn ?p) = outgoing c @ concat (map (\<lambda>m. fst (MarshalBinary m)) (take k ms)))"
    by (intro impI exI [of _ 0]) (simp add: MessageChannel_def)
  have "wr_left (pconn ?p) = None" "writer ?p = WLoop"
    using assms(2) by (simp_all add: MessageChannel_def)
  from run_order [OF assms(1) this init assms(3)]
  obtain k where k: "k \<le> length ms" "outbox (run sched ?p) = drop k ms"
    "outgoing (pconn (run sched ?p)) =
       outgoing c @ concat (map (\<lambda>m. fst (MarshalBinary m)) (take k ms))"
    by blast
  from k(1,2) have "length ms - length (outbox (run sched ?p)) = k" by simp
  with k(3) show ?thesis by simp
qed

theorem writer_order_witness:
  "outgoing (pconn (run [Writer, Reader, Writer, Writer, Reader]
      (MessageChannel \<lparr>RemoteAddr = ''peer'', incoming = [[0x03]], wr_left = None, outgoing = []\<rparr>
        [\<lparr>Packet = ClientType, Body = [0x01]\<rparr>,
         \<lparr>Packet = FileName, Body = [0x61, 0x2E, 0x74, 0x78, 0x74]\<rparr>,
         \<lparr>Packet = PeerNotFound, Body = []\<rparr>])))
   = [0x00, 0x01, 0x05, 0x05, 0x61, 0x2E, 0x74, 0x78, 0x74, 0x03]"
proof -
  let ?c = "\<lparr>RemoteAddr = ''peer'', incoming = [[0x03]], wr_left = None, outgoing = []\<rparr>"
  let ?ms = "[\<lparr>Packet = ClientType, Body = [0x01]\<rparr>,
         \<lparr>Packet = FileName, Body = [0x61, 0x2E, 0x74, 0x78, 0x74]\<rparr>,
         \<lparr>Packet = PeerNotFound, Body = []\<rparr>]"
  let ?s = "[Writer, Reader, Writer, Writer, Reader]"
  have h1: "list_all (\<lambda>m. snd (MarshalBinary m) = None) ?ms" by code_simp
  have h2: "wr_left ?c = None" by simp
  have h3: "ch_out (run ?s (MessageChannel ?c ?ms)) = ChOpen" by code_simp
  have ob: "outbox (run ?s (MessageChannel ?c ?ms)) = []" by code_simp
  have enc: "concat (map (\<lambda>m. fst (MarshalBinary m)) ?ms) = [0x00, 0x01, 0x05, 0x05, 0x61, 0x2E, 0x74, 0x78, 0x74, 0x03]"
    by code_simp
  from writer_order [OF h1 h2 h3] ob enc show ?thesis by simp
qed

text \<open>Claim C2 (joint teardown), at a failing input. The first read fails and so does the
  first write. The reader leaves its loop and its deferred calls close \<^verbatim>\<open>out\<close> and
  \<^verbatim>\<open>in\<close>; the writer receives the zero message from the closed \<^verbatim>\<open>out\<close>, its write fails,
  and its own deferred \<^verbatim>\<open>close(out)\<close> runs on the closed channel: the process panics.\<close>

theorem double_close_panics:
  "panicked (run [Reader, Reader, Reader, Writer, Writer]
      (MessageChannel \<lparr>RemoteAddr = ''peer'', incoming = [], wr_left = Some 0,
         outgoing = []\<rparr> [])) = Some CloseOfClosedChannel"
  by code_simp

text \<open>In no schedule do both goroutines get past their \<^verbatim>\<open>close(out)\<close>: the second one
  to reach it panics there.\<close>

lemma close_out_once:
  "\<not> (reader (run sched (MessageChannel c ms)) \<in> {RCloseIn, RDone} \<and>
      writer (run sched (MessageChannel c ms)) \<in> {WCloseIn, WDone})"
proof -
  have step: "(reader (pump_step a p) \<in> {RCloseIn, RDone} \<or> writer (pump_step a p) \<in> {WCloseIn, WDone}
                 \<longrightarrow> ch_out (pump_step a p) = ChClosed) \<and>
              \<not> (reader (pump_step a p) \<in> {RCloseIn, RDone} \<and> writer (pump_step a p) \<in> {WCloseIn, WDone})"
    if "reader p \<in> {RCloseIn, RDone} \<or> writer p \<in> {WCloseIn, WDone} \<longrightarrow> ch_out p = ChClosed"
      and "\<not> (reader p \<in> {RCloseIn, RDone} \<and> writer p \<in> {WCloseIn, WDone})" for a p
    using that
    by (cases a; cases "reader p"; cases "writer p"; cases "ch_out p"; cases "ch_in p")
       (auto simp: pump_step_def reader_step_def writer_step_def
          split: prod.splits sum.splits option.splits)
  have inv: "(reader (run sched p) \<in> {RCloseIn, RDone} \<or> writer (run sched p) \<in> {WCloseIn, WDone}
                 \<longrightarrow> ch_out (run sched p) = ChClosed) \<and>
              \<not> (reader (run sched p) \<in> {RCloseIn, RDone} \<and> writer (run sched p) \<in> {WCloseIn, WDone})"
    if "reader p \<in> {RCloseIn, RDone} \<or> writer p \<in> {WCloseIn, WDone} \<longrightarrow> ch_out p = ChClosed"
      and "\<not> (reader p \<in> {RCloseIn, RDone} \<and> writer p \<in> {WCloseIn, WDone})" for p
    using that
  proof (induction sched arbitrary: p)
    case Nil
    then show ?case by simp
  next
    case (Cons a sched)
    from step [OF Cons.prems] Cons.IH [of "pump_step a p"] show ?case by simp
  qed
  show ?thesis using inv [of "MessageChannel c ms"] by (simp add: MessageChannel_def)
qed

text \<open>Claim C3 (after teardown), at a failing input. The first read fails while the
  connection still accepts writes. After the reader has closed both channels nothing has
  been written; each later turn of the writer receives the zero message from the closed
  \<^verbatim>\<open>out\<close> and writes its encoding, the byte \<open>0x00\<close>, to the connection.\<close>

theorem writes_after_teardown:
  "ch_in (run [Reader, Reader, Reader]
      (MessageChannel \<lparr>RemoteAddr = ''peer'', incoming = [], wr_left = None,
         outgoing = []\<rparr> [])) = ChClosed \<and>
   ch_out (run [Reader, Reader, Reader]
      (MessageChannel \<lparr>RemoteAddr = ''peer'', incoming = [], wr_left = None,
         outgoing = []\<rparr> [])) = ChClosed \<and>
   outgoing (pconn (run [Reader, Reader, Reader]
      (MessageChannel \<lparr>RemoteAddr = ''peer'', incoming = [], wr_left = None,
         outgoing = []\<rparr> []))) = [] \<and>
   outgoing (pconn (run [Reader, Reader, Reader, Writer, Writer]
      (MessageChannel \<lparr>RemoteAddr = ''peer'', incoming = [], wr_left = None,
         outgoing = []\<rparr> []))) = [0x00, 0x00]"
  by code_simp

text \<open>The same for any number of turns: once \<^verbatim>\<open>out\<close> is closed, \<open>n\<close> turns of the writer
  write \<open>n\<close> zero bytes.\<close>

lemma writer_zero_bytes:
  "ch_out p = ChClosed \<Longrightarrow> writer p = WLoop \<Longrightarrow> panicked p = None \<Longrightarrow>
   wr_left (pconn p) = None \<Longrightarrow>
   outgoing (pconn (run (replicate n Writer) p)) = outgoing (pconn p) @ replicate n 0"
proof (induction n arbitrary: p)
  case 0
  then show ?case by simp
next
  case (Suc n)
  let ?q = "pump_step Writer p"
  from Suc.prems writer_iter_ok [OF zeroMessage_marshals Suc.prems(4)]
  have q: "?q = p\<lparr>pconn := (pconn p)\<lparr>outgoing := outgoing (pconn p) @ [0]\<rparr>\<rparr>"
    by (simp add: pump_step_def writer_step_def MarshalBinary_def zeroMessage_def
          isBodiless_iff fixedLengthPackets_eq)
  with Suc.prems have "ch_out ?q = ChClosed" "writer ?q = WLoop" "panicked ?q = None"
    "wr_left (pconn ?q) = None" by simp_all
  from Suc.IH [OF this] q show ?case by (simp add: replicate_append_same)
qed

end
